theory Spec2Isabelle
  imports Complex_Main "HOL-Library.AList"
begin

section \<open>Python values, errors and strings\<close>

text \<open>
  The exceptions the modelled code can raise. \<open>ConnectionError\<close> stands for any
  failure of the transport other than a channel-open failure.
\<close>

datatype py_error =
    IndexError
  | KeyError
  | TypeError
  | AttributeError
  | ZeroDivisionError
  | ChannelOpenError
  | ConnectionError

text \<open>
  Router output is modelled as ASCII text: a \<open>string\<close> is a list of characters, and
  the character classes below are those of Python's \<open>re\<close> on \<open>str\<close> restricted to
  code points below 128.
\<close>

definition code :: "char \<Rightarrow> nat" where
  "code c = of_char c"

definition in_range :: "char \<Rightarrow> char \<Rightarrow> char \<Rightarrow> bool" where
  "in_range lo hi c = (code lo \<le> code c \<and> code c \<le> code hi)"

text \<open>\<open>str.upper\<close> on ASCII text: \<open>a\<close>..\<open>z\<close> go to \<open>A\<close>..\<open>Z\<close>, the rest stays.\<close>

definition upper_char :: "char \<Rightarrow> char" where
  "upper_char c = (if in_range CHR ''a'' CHR ''z'' c then char_of (code c - 32) else c)"

definition upper :: "string \<Rightarrow> string" where
  "upper s = map upper_char s"

text \<open>\<open>str.startswith\<close>.\<close>

definition startswith :: "string \<Rightarrow> string \<Rightarrow> bool" where
  "startswith s p = (take (length p) s = p)"

section \<open>Regular expressions as \<open>re\<close> runs them\<close>

text \<open>
  The items of a bracket expression, and the escapes \<open>\<bslash>w\<close>, \<open>\<bslash>s\<close>, \<open>\<bslash>d\<close>.
\<close>

datatype cls =
    Lit char
  | Range char char
  | Word
  | Space
  | Digit

fun in_cls :: "cls \<Rightarrow> char \<Rightarrow> bool" where
  "in_cls (Lit a) c = (c = a)"
| "in_cls (Range lo hi) c = in_range lo hi c"
| "in_cls Word c =
     (in_range CHR ''a'' CHR ''z'' c \<or> in_range CHR ''A'' CHR ''Z'' c \<or>
      in_range CHR ''0'' CHR ''9'' c \<or> c = CHR ''_'')"
| "in_cls Space c =
     (code c = 32 \<or> (9 \<le> code c \<and> code c \<le> 13) \<or> (28 \<le> code c \<and> code c \<le> 31))"
| "in_cls Digit c = in_range CHR ''0'' CHR ''9'' c"

definition in_classes :: "cls list \<Rightarrow> char \<Rightarrow> bool" where
  "in_classes cs c = (\<exists>k \<in> set cs. in_cls k c)"

text \<open>
  The patterns of the source use one-character items (\<open>Sym\<close>: a bracket expression,
  an escape or a literal; \<open>NSym\<close>: a negated bracket expression; \<open>Dot\<close>: any
  character but a newline), concatenation, alternation, greedy repetition
  \<open>{lo,hi}\<close> (\<open>hi = None\<close> for no upper bound, so \<open>+\<close> is \<open>Rep 1 None\<close>, \<open>*\<close> is
  \<open>Rep 0 None\<close> and \<open>?\<close> is \<open>Rep 0 (Some 1)\<close>) and named groups. Unnamed groups only
  bracket and are not represented.
\<close>

datatype regex =
    Sym "cls list"
  | NSym "cls list"
  | Dot
  | Seq regex regex
  | Alt regex regex
  | Rep nat "nat option" regex
  | Named string regex

text \<open>
  A matcher state is the captures made so far (latest first) and the text not yet
  consumed. \<open>rmatch r st\<close> lists every way \<open>r\<close> can match at the front of the text, in
  the order in which a backtracking matcher tries them; its head is the match \<open>re\<close>
  reports.
\<close>

type_synonym captures = "(string \<times> string) list"
type_synonym mstate = "captures \<times> string"

fun one_char :: "(char \<Rightarrow> bool) \<Rightarrow> mstate \<Rightarrow> mstate list" where
  "one_char p (caps, []) = []"
| "one_char p (caps, c # cs) = (if p c then [(caps, cs)] else [])"

text \<open>
  Greedy bounded repetition: \<open>iter f lo n st\<close> runs the body \<open>f\<close> at most \<open>n\<close> more
  times, trying one more round before stopping, and may stop only once \<open>lo\<close> rounds
  are done.
\<close>

primrec iter :: "(mstate \<Rightarrow> mstate list) \<Rightarrow> nat \<Rightarrow> nat \<Rightarrow> mstate \<Rightarrow> mstate list" where
  "iter f lo 0 st = (if lo = 0 then [st] else [])"
| "iter f lo (Suc n) st =
     concat (map (iter f (lo - 1) n) (f st)) @ (if lo = 0 then [st] else [])"

text \<open>
  Every body repeated in the source's patterns consumes at least one character, so an
  unbounded repetition never runs more rounds than there are characters left.
\<close>

definition rounds :: "nat option \<Rightarrow> mstate \<Rightarrow> nat" where
  "rounds hi st = (case hi of Some h \<Rightarrow> h | None \<Rightarrow> length (snd st))"

definition capture :: "string \<Rightarrow> string \<Rightarrow> mstate \<Rightarrow> mstate" where
  "capture g s st = ((g, take (length s - length (snd st)) s) # fst st, snd st)"

primrec rmatch :: "regex \<Rightarrow> mstate \<Rightarrow> mstate list" where
  "rmatch (Sym cs) = one_char (in_classes cs)"
| "rmatch (NSym cs) = one_char (\<lambda>c. \<not> in_classes cs c)"
| "rmatch Dot = one_char (\<lambda>c. code c \<noteq> 10)"
| "rmatch (Seq r1 r2) = (\<lambda>st. concat (map (rmatch r2) (rmatch r1 st)))"
| "rmatch (Alt r1 r2) = (\<lambda>st. rmatch r1 st @ rmatch r2 st)"
| "rmatch (Rep lo hi r) = (\<lambda>st. iter (rmatch r) lo (rounds hi st) st)"
| "rmatch (Named g r) = (\<lambda>st. map (capture g (snd st)) (rmatch r st))"

text \<open>\<open>regex.search\<close>: the first match at the leftmost position that has one.\<close>

fun search :: "regex \<Rightarrow> string \<Rightarrow> captures option" where
  "search r [] = (case rmatch r ([], []) of [] \<Rightarrow> None | m # _ \<Rightarrow> Some (fst m))"
| "search r (c # cs) =
     (case rmatch r ([], c # cs) of [] \<Rightarrow> search r cs | m # _ \<Rightarrow> Some (fst m))"

text \<open>
  \<open>match.groupdict()\<close>: every named group of the pattern is a key, mapped to the
  text it captured or to \<open>None\<close> when it took no part in the match.
\<close>

primrec group_names :: "regex \<Rightarrow> string list" where
  "group_names (Sym cs) = []"
| "group_names (NSym cs) = []"
| "group_names Dot = []"
| "group_names (Seq r1 r2) = group_names r1 @ group_names r2"
| "group_names (Alt r1 r2) = group_names r1 @ group_names r2"
| "group_names (Rep lo hi r) = group_names r"
| "group_names (Named g r) = g # group_names r"

type_synonym groupdict = "(string \<times> string option) list"

definition groupdict :: "regex \<Rightarrow> captures \<Rightarrow> groupdict" where
  "groupdict r caps = map (\<lambda>g. (g, map_of caps g)) (group_names r)"

section \<open>The five parsing patterns\<close>

text \<open>A sequence of patterns, and a literal word.\<close>

fun cat :: "regex list \<Rightarrow> regex" where
  "cat [] = Rep 0 (Some 0) Dot"
| "cat [r] = r"
| "cat (r # rs) = Seq r (cat rs)"

definition lit :: "string \<Rightarrow> regex" where
  "lit w = cat (map (\<lambda>c. Sym [Lit c]) w)"

text \<open>The building blocks the patterns share.\<close>

definition digit09 :: regex where
  "digit09 = Sym [Range CHR ''0'' CHR ''9'']"

definition hex_lower :: regex where
  "hex_lower = Sym [Range CHR ''0'' CHR ''9'', Range CHR ''a'' CHR ''f'']"

definition hex_upper :: regex where
  "hex_upper = Sym [Range CHR ''0'' CHR ''9'', Range CHR ''A'' CHR ''F'']"

definition hex_any :: regex where
  "hex_any = Sym [Range CHR ''0'' CHR ''9'', Range CHR ''a'' CHR ''f'', Range CHR ''A'' CHR ''F'']"

text \<open>\<^verbatim>\<open>(([0-9a-f]{2}[:-]){5}([0-9a-f]{2}))\<close>, for the given hex digit.\<close>

definition mac_pattern :: "regex \<Rightarrow> regex" where
  "mac_pattern h =
     Seq (Rep 5 (Some 5) (Seq (Rep 2 (Some 2) h) (Sym [Lit CHR '':'', Lit CHR ''-''])))
         (Rep 2 (Some 2) h)"

text \<open>\<^verbatim>\<open>([0-9]{1,3}[\.]){3}[0-9]{1,3}\<close>\<close>

definition ipv4_pattern :: regex where
  "ipv4_pattern =
     Seq (Rep 3 (Some 3) (Seq (Rep 1 (Some 3) digit09) (Sym [Lit CHR ''.''])))
         (Rep 1 (Some 3) digit09)"

text \<open>\<^verbatim>\<open>([0-9a-fA-F]{1,4}:){1,7}[0-9a-fA-F]{0,4}(:[0-9a-fA-F]{1,4}){1,7}\<close>\<close>

definition ipv6_pattern :: regex where
  "ipv6_pattern =
     cat [Rep 1 (Some 7) (Seq (Rep 1 (Some 4) hex_any) (Sym [Lit CHR '':''])),
          Rep 0 (Some 4) hex_any,
          Rep 1 (Some 7) (Seq (Sym [Lit CHR '':'']) (Rep 1 (Some 4) hex_any))]"

definition LEASES_REGEX :: regex where
  "LEASES_REGEX =
     cat [Rep 1 None (Sym [Word]), Sym [Space],
          Named ''mac'' (mac_pattern hex_lower), Sym [Space],
          Named ''ip'' ipv4_pattern, Sym [Space],
          Named ''host'' (Rep 1 None (NSym [Space]))]"

definition WL_REGEX :: regex where
  "WL_REGEX =
     cat [Rep 1 None (Sym [Word]), Sym [Space],
          Named ''mac'' (mac_pattern hex_upper)]"

definition IP_NEIGH_REGEX :: regex where
  "IP_NEIGH_REGEX =
     cat [Named ''ip'' (Alt ipv4_pattern ipv6_pattern), Sym [Space],
          Rep 1 None (Sym [Word]), Sym [Space],
          Rep 1 None (Sym [Word]), Sym [Space],
          Rep 0 (Some 1)
            (cat [Rep 1 None (Sym [Word]), Sym [Space],
                  Named ''mac'' (mac_pattern hex_lower)]),
          Sym [Space],
          Rep 0 (Some 1) (Sym [Space]), Rep 0 (Some 1) (lit ''router''),
          Rep 0 (Some 1) (Sym [Space]), Rep 0 (Some 1) (lit ''nud''),
          Named ''status'' (Rep 1 None (Sym [Word]))]"

definition ARP_REGEX :: regex where
  "ARP_REGEX =
     cat [Rep 1 None Dot, Sym [Space],
          Sym [Lit CHR ''(''], Named ''ip'' ipv4_pattern, Sym [Lit CHR '')''], Sym [Space],
          Rep 1 None Dot, Sym [Space],
          Named ''mac'' (mac_pattern hex_lower),
          Sym [Space],
          Rep 0 None Dot]"

definition IFCONFIG_REGEX :: regex where
  "IFCONFIG_REGEX = Named ''data'' (Rep 4 None (Sym [Digit]))"

text \<open>
  \<open>_parse_lines\<close>: the group dictionary of every line the pattern finds a match in;
  the other lines are skipped.
\<close>

fun parse_lines :: "string list \<Rightarrow> regex \<Rightarrow> groupdict list" where
  "parse_lines [] regex = []"
| "parse_lines (line # lines) regex =
     (case search regex line of
        None \<Rightarrow> parse_lines lines regex
      | Some m \<Rightarrow> groupdict regex m # parse_lines lines regex)"

section \<open>Dictionaries, devices and the connection\<close>

text \<open>Raising and propagating exceptions: \<open>Inl\<close> is a raised exception.\<close>

definition bindE :: "py_error + 'a \<Rightarrow> ('a \<Rightarrow> py_error + 'b) \<Rightarrow> py_error + 'b" where
  "bindE m f = (case m of Inl e \<Rightarrow> Inl e | Inr x \<Rightarrow> f x)"

text \<open>
  A dictionary is an association list with distinct keys in insertion order.
  \<open>d[k] = v\<close> is \<open>AList.update k v d\<close>; \<open>d.update(other)\<close> stores the items of
  \<open>other\<close> one after the other.
\<close>

definition dict_update :: "('k \<times> 'v) list \<Rightarrow> ('k \<times> 'v) list \<Rightarrow> ('k \<times> 'v) list" where
  "dict_update d other = fold (\<lambda>(k, v). AList.update k v) other d"

text \<open>\<open>d[k]\<close>, which raises on a missing key, and \<open>d.get(k, default)\<close>.\<close>

definition getitem :: "('k \<times> 'v) list \<Rightarrow> 'k \<Rightarrow> py_error + 'v" where
  "getitem d k = (case map_of d k of None \<Rightarrow> Inl KeyError | Some v \<Rightarrow> Inr v)"

definition dict_get :: "('k \<times> 'v) list \<Rightarrow> 'k \<Rightarrow> 'v \<Rightarrow> 'v" where
  "dict_get d k dflt = (case map_of d k of None \<Rightarrow> dflt | Some v \<Rightarrow> v)"

text \<open>\<open>value.upper()\<close> where the value may be \<open>None\<close>.\<close>

definition upper_of :: "string option \<Rightarrow> py_error + string" where
  "upper_of v = (case v of None \<Rightarrow> Inl AttributeError | Some s \<Rightarrow> Inr (upper s))"

text \<open>\<open>Device = namedtuple('Device', ['mac', 'ip', 'name'])\<close>\<close>

datatype Device = Device (mac: string) (ip: "string option") (name: "string option")

type_synonym devices = "(string \<times> Device) list"

text \<open>
  What \<open>await connection.async_run_command(...)\<close> hands back: the output lines, or
  (from the secure-shell transport after a channel-open failure) the coroutine object
  of a call \<open>async_run_command(command, retry)\<close> that was never awaited.
\<close>

datatype cmd_value = Lines "string list" | Coroutine string bool

text \<open>
  The connection as the interface class sees it: \<open>replies\<close> holds what the
  connection will answer to the commands still to come, an exception or a value each,
  in order (a connection with no answer left fails), and \<open>issued\<close> lists the
  command lines run so far.
\<close>

record connection =
  replies :: "(py_error + cmd_value) list"
  issued :: "string list"

definition LEASES_CMD :: string where
  "LEASES_CMD = ''cat /var/lib/misc/dnsmasq.leases''"

definition WL_CMD :: string where
  "WL_CMD = ''for dev in `nvram get wl_ifnames`; do wl -i $dev assoclist; done''"

definition IP_NEIGH_CMD :: string where
  "IP_NEIGH_CMD = ''ip neigh''"

definition ARP_CMD :: string where
  "ARP_CMD = ''arp -n''"

definition IFCONFIG_CMD :: string where
  "IFCONFIG_CMD = ''ifconfig eth0 |grep bytes''"

text \<open>\<open>not lines\<close>: an empty list is falsy, a coroutine object is truthy.\<close>

fun falsy :: "cmd_value \<Rightarrow> bool" where
  "falsy (Lines ls) = (ls = [])"
| "falsy (Coroutine command retry) = False"

text \<open>Iterating over the value: a coroutine object is not iterable.\<close>

fun iterate :: "cmd_value \<Rightarrow> py_error + string list" where
  "iterate (Lines ls) = Inr ls"
| "iterate (Coroutine command retry) = Inl TypeError"

section \<open>The interface class\<close>

record asuswrt =
  require_ip :: bool
  mode :: string
  rx_latest :: "int option"
  tx_latest :: "int option"
  latest_transfer_check :: "int option"
  cache_time :: rat
  trans_cache_timer :: "int option"
  transfer_rates_cache :: "int list option"
  connection :: connection

text \<open>
  A method of the class takes the object and returns its result, or the exception it
  raised, with the object as the method left it.
\<close>

type_synonym 'a action = "asuswrt \<Rightarrow> (py_error + 'a) \<times> asuswrt"

text \<open>\<open>await self.connection.async_run_command(command)\<close>\<close>

definition await_run_command :: "string \<Rightarrow> cmd_value action" where
  "await_run_command command self =
     (let c = connection self
      in (case replies c of
            [] \<Rightarrow> (Inl ConnectionError, self\<lparr>connection := c\<lparr>issued := issued c @ [command]\<rparr>\<rparr>)
          | r # rs \<Rightarrow>
              (r, self\<lparr>connection := c\<lparr>replies := rs, issued := issued c @ [command]\<rparr>\<rparr>)))"

definition bindM :: "'a action \<Rightarrow> ('a \<Rightarrow> 'b action) \<Rightarrow> 'b action" where
  "bindM m f self =
     (case m self of (Inl e, self') \<Rightarrow> (Inl e, self') | (Inr x, self') \<Rightarrow> f x self')"

definition finish :: "py_error + 'a \<Rightarrow> 'a action" where
  "finish r self = (r, self)"

subsection \<open>The four device sources\<close>

fun wl_loop :: "groupdict list \<Rightarrow> devices \<Rightarrow> py_error + devices" where
  "wl_loop [] devices = Inr devices"
| "wl_loop (device # result) devices =
     bindE (getitem device ''mac'') (\<lambda>m.
     bindE (upper_of m) (\<lambda>mac.
     wl_loop result (AList.update mac (Device mac None None) devices)))"

definition wl_devices :: "cmd_value \<Rightarrow> py_error + devices" where
  "wl_devices lines =
     (if falsy lines then Inr []
      else bindE (iterate lines) (\<lambda>ls. wl_loop (parse_lines ls WL_REGEX) []))"

definition async_get_wl :: "devices action" where
  "async_get_wl = bindM (await_run_command WL_CMD) (\<lambda>lines. finish (wl_devices lines))"

fun leases_loop :: "devices \<Rightarrow> groupdict list \<Rightarrow> devices \<Rightarrow> py_error + devices" where
  "leases_loop cur_devices [] devices = Inr devices"
| "leases_loop cur_devices (device # result) devices =
     bindE (getitem device ''host'') (\<lambda>h.
     let host = (if h = Some ''*'' then Some [] else h) in
     bindE (getitem device ''mac'') (\<lambda>m.
     bindE (upper_of m) (\<lambda>mac.
     if map_of cur_devices mac \<noteq> None
     then bindE (getitem device ''ip'') (\<lambda>i.
          leases_loop cur_devices result (AList.update mac (Device mac i host) devices))
     else leases_loop cur_devices result devices)))"

definition leases_devices :: "devices \<Rightarrow> cmd_value \<Rightarrow> py_error + devices" where
  "leases_devices cur_devices lines =
     (if falsy lines then Inr []
      else bindE (iterate lines) (\<lambda>ls.
           leases_loop cur_devices
             (parse_lines (filter (\<lambda>line. \<not> startswith line ''duid '') ls) LEASES_REGEX) []))"

definition async_get_leases :: "devices \<Rightarrow> devices action" where
  "async_get_leases cur_devices =
     bindM (await_run_command LEASES_CMD) (\<lambda>lines. finish (leases_devices cur_devices lines))"

fun neigh_loop :: "devices \<Rightarrow> groupdict list \<Rightarrow> devices \<Rightarrow> py_error + devices" where
  "neigh_loop cur_devices [] devices = Inr devices"
| "neigh_loop cur_devices (device # result) devices =
     bindE (getitem device ''status'') (\<lambda>status.
     if (case status of None \<Rightarrow> True | Some st \<Rightarrow> upper st \<noteq> ''REACHABLE'')
     then neigh_loop cur_devices result devices
     else bindE (getitem device ''mac'') (\<lambda>m.
          if m \<noteq> None
          then bindE (upper_of m) (\<lambda>mac.
               let old_device = map_of cur_devices mac;
                   old_ip = (case old_device of Some d \<Rightarrow> ip d | None \<Rightarrow> None)
               in neigh_loop cur_devices result
                    (AList.update mac (Device mac (dict_get device ''ip'' old_ip) None) devices))
          else neigh_loop cur_devices result devices))"

definition neigh_devices :: "devices \<Rightarrow> cmd_value \<Rightarrow> py_error + devices" where
  "neigh_devices cur_devices lines =
     (if falsy lines then Inr []
      else bindE (iterate lines) (\<lambda>ls.
           neigh_loop cur_devices (parse_lines ls IP_NEIGH_REGEX) []))"

definition async_get_neigh :: "devices \<Rightarrow> devices action" where
  "async_get_neigh cur_devices =
     bindM (await_run_command IP_NEIGH_CMD) (\<lambda>lines. finish (neigh_devices cur_devices lines))"

fun arp_loop :: "groupdict list \<Rightarrow> devices \<Rightarrow> py_error + devices" where
  "arp_loop [] devices = Inr devices"
| "arp_loop (device # result) devices =
     bindE (getitem device ''mac'') (\<lambda>m.
     if m \<noteq> None
     then bindE (upper_of m) (\<lambda>mac.
          bindE (getitem device ''ip'') (\<lambda>i.
          arp_loop result (AList.update mac (Device mac i None) devices)))
     else arp_loop result devices)"

definition arp_devices :: "cmd_value \<Rightarrow> py_error + devices" where
  "arp_devices lines =
     (if falsy lines then Inr []
      else bindE (iterate lines) (\<lambda>ls. arp_loop (parse_lines ls ARP_REGEX) []))"

definition async_get_arp :: "devices action" where
  "async_get_arp = bindM (await_run_command ARP_CMD) (\<lambda>lines. finish (arp_devices lines))"

subsection \<open>Reconciliation\<close>

text \<open>The closing loop over the keys of \<open>devices\<close>.\<close>

fun ret_loop :: "bool \<Rightarrow> devices \<Rightarrow> string list \<Rightarrow> devices \<Rightarrow> py_error + devices" where
  "ret_loop req devices [] ret_devices = Inr ret_devices"
| "ret_loop req devices (key # keys) ret_devices =
     bindE (getitem devices key) (\<lambda>d.
     if \<not> req \<or> ip d \<noteq> None
     then ret_loop req devices keys (AList.update key d ret_devices)
     else ret_loop req devices keys ret_devices)"

text \<open>
  \<open>async_get_connected_devices\<close>: the table after each source, the leases step
  unless the mode is \<open>ap\<close>, and the closing loop.
\<close>

definition leases_step :: "devices \<Rightarrow> devices action" where
  "leases_step devices self =
     (if mode self \<noteq> ''ap''
      then bindM (async_get_leases devices)
             (\<lambda>leases. finish (Inr (dict_update devices leases))) self
      else finish (Inr devices) self)"

definition ret_step :: "devices \<Rightarrow> devices action" where
  "ret_step devices self =
     finish (ret_loop (require_ip self) devices (map fst devices) []) self"

definition async_get_connected_devices :: "devices action" where
  "async_get_connected_devices =
     bindM async_get_wl (\<lambda>wl.
     bindM async_get_arp (\<lambda>arp.
     bindM (async_get_neigh (dict_update (dict_update [] wl) arp)) (\<lambda>neigh.
     bindM (leases_step (dict_update (dict_update (dict_update [] wl) arp) neigh))
       ret_step)))"

subsection \<open>Interface byte counters\<close>

text \<open>
  \<open>regex.findall\<close> for a pattern with one group: scan from the left; at a match,
  keep the group's text and go on behind the match; elsewhere move on by one
  character. (The one pattern it is used with never matches the empty string.)
\<close>

fun findall :: "regex \<Rightarrow> string \<Rightarrow> string \<Rightarrow> string list" where
  "findall r g [] = []"
| "findall r g (c # cs) =
     (case rmatch r ([], c # cs) of
        [] \<Rightarrow> findall r g cs
      | m # _ \<Rightarrow>
          (case map_of (fst m) g of None \<Rightarrow> [] | Some t \<Rightarrow> t)
          # (if length (snd m) < length (c # cs) then findall r g (snd m) else findall r g cs))"

text \<open>\<open>int(value)\<close> on a string of decimal digits.\<close>

definition int_of :: "string \<Rightarrow> int" where
  "int_of s = foldl (\<lambda>a c. 10 * a + (int (code c) - 48)) 0 s"

text \<open>
  Times are \<open>datetime\<close> values, modelled as whole microseconds since the epoch; the
  difference of two is a \<open>timedelta\<close>, and \<open>total_seconds()\<close> is its length in
  seconds, taken as the exact quotient.
\<close>

definition total_seconds :: "int \<Rightarrow> rat" where
  "total_seconds td = of_int td / 1000000"

text \<open>\<open>data[i]\<close> on what the command returned, and on a list of integers or \<open>None\<close>.\<close>

fun first_line :: "cmd_value \<Rightarrow> py_error + string" where
  "first_line (Lines []) = Inl IndexError"
| "first_line (Lines (l # ls)) = Inr l"
| "first_line (Coroutine command retry) = Inl TypeError"

fun subscript :: "int list option \<Rightarrow> nat \<Rightarrow> py_error + int" where
  "subscript None i = Inl TypeError"
| "subscript (Some xs) i = (if i < length xs then Inr (xs ! i) else Inl IndexError)"

text \<open>
  The guard of \<open>async_get_packets_total\<close>:
  \<^verbatim>\<open>use_cache and self._trans_cache_timer and self._cache_time > (now - self._trans_cache_timer).total_seconds()\<close>
\<close>

definition cache_valid :: "bool \<Rightarrow> int \<Rightarrow> asuswrt \<Rightarrow> bool" where
  "cache_valid use_cache now self =
     (use_cache \<and>
      (case trans_cache_timer self of
         None \<Rightarrow> False
       | Some timer \<Rightarrow> cache_time self > total_seconds (now - timer)))"

text \<open>\<open>now\<close> is what \<open>datetime.utcnow()\<close> returns in the call.\<close>

definition async_get_packets_total :: "bool \<Rightarrow> int \<Rightarrow> int list option action" where
  "async_get_packets_total use_cache now self =
     (if cache_valid use_cache now self
      then (Inr (transfer_rates_cache self), self)
      else bindM (await_run_command IFCONFIG_CMD) (\<lambda>data self.
           case first_line data of
             Inl e \<Rightarrow> (Inl e, self)
           | Inr line \<Rightarrow>
               (let result = findall IFCONFIG_REGEX ''data'' line;
                    ret = map int_of result
                in (Inr (Some ret),
                    self\<lparr>transfer_rates_cache := Some ret, trans_cache_timer := Some now\<rparr>)))
           self)"

definition async_get_rx :: "bool \<Rightarrow> int \<Rightarrow> int action" where
  "async_get_rx use_cache now =
     bindM (async_get_packets_total use_cache now) (\<lambda>data. finish (subscript data 0))"

definition async_get_tx :: "bool \<Rightarrow> int \<Rightarrow> int action" where
  "async_get_tx use_cache now =
     bindM (async_get_packets_total use_cache now) (\<lambda>data. finish (subscript data 1))"

subsection \<open>Transfer rates\<close>

text \<open>\<open>math.ceil(delta / seconds) if delta > 0 else 0\<close>; the division raises at zero.\<close>

definition rate :: "int \<Rightarrow> rat \<Rightarrow> py_error + int" where
  "rate delta seconds =
     (if delta > 0
      then (if seconds = 0 then Inl ZeroDivisionError else Inr \<lceil>of_int delta / seconds\<rceil>)
      else Inr 0)"

text \<open>Storing into a field of the object, and reading a value that may raise.\<close>

definition store :: "(asuswrt \<Rightarrow> asuswrt) \<Rightarrow> unit action" where
  "store f self = (Inr (), f self)"

text \<open>
  \<open>async_get_current_transfer_rates\<close>. \<open>now\<close> is the time the method reads first,
  \<open>now_total\<close> the time \<open>async_get_packets_total\<close> reads after it. The result \<open>None\<close>
  is the bare \<open>return\<close> of the first call.
\<close>

definition async_get_current_transfer_rates ::
    "bool \<Rightarrow> int \<Rightarrow> int \<Rightarrow> (int \<times> int) option action" where
  "async_get_current_transfer_rates use_cache now now_total =
     bindM (async_get_packets_total use_cache now_total) (\<lambda>data self.
     if rx_latest self = None \<or> tx_latest self = None
     then (bindM (store (\<lambda>s. s\<lparr>latest_transfer_check := Some now\<rparr>)) (\<lambda>_.
           bindM (finish (subscript data 0)) (\<lambda>d0.
           bindM (store (\<lambda>s. s\<lparr>rx_latest := Some d0\<rparr>)) (\<lambda>_.
           bindM (finish (subscript data 1)) (\<lambda>d1.
           bindM (store (\<lambda>s. s\<lparr>tx_latest := Some d1\<rparr>)) (\<lambda>_.
           finish (Inr None))))))) self
     else (case (latest_transfer_check self, rx_latest self, tx_latest self) of
             (Some checked, Some rx_old, Some tx_old) \<Rightarrow>
               (let time_diff = now - checked in
                bindM (store (\<lambda>s. s\<lparr>latest_transfer_check := Some now\<rparr>)) (\<lambda>_.
                bindM (finish (subscript data 0)) (\<lambda>d0.
                bindM (finish (subscript data 1)) (\<lambda>d1.
                let rx = d0 - rx_old; tx = d1 - tx_old in
                bindM (store (\<lambda>s. s\<lparr>rx_latest := Some d0\<rparr>)) (\<lambda>_.
                bindM (store (\<lambda>s. s\<lparr>tx_latest := Some d1\<rparr>)) (\<lambda>_.
                finish (bindE (rate rx (total_seconds time_diff)) (\<lambda>rx_rate.
                        bindE (rate tx (total_seconds time_diff)) (\<lambda>tx_rate.
                        Inr (Some (rx_rate, tx_rate)))))))))) self)
           | _ \<Rightarrow> (Inl TypeError, self)))"

text \<open>The constructor, with the connection it was given.\<close>

definition CHANGE_TIME_CACHE_DEFAULT :: rat where
  "CHANGE_TIME_CACHE_DEFAULT = 5"

definition init :: "string \<Rightarrow> bool \<Rightarrow> rat \<Rightarrow> connection \<Rightarrow> asuswrt" where
  "init mode_arg require_ip_arg time_cache conn =
     \<lparr>require_ip = require_ip_arg, mode = mode_arg,
      rx_latest = None, tx_latest = None, latest_transfer_check = None,
      cache_time = time_cache, trans_cache_timer = None, transfer_rates_cache = None,
      connection = conn\<rparr>"

section \<open>The secure-shell transport\<close>

text \<open>
  The session library is the environment. \<open>connect_reply\<close> holds the outcomes of
  the calls of \<open>asyncssh.connect\<close> still to come (\<open>Some e\<close>: it raises \<open>e\<close>;
  \<open>None\<close>: a session), \<open>run_reply\<close> those of the calls of \<open>client.run\<close> (an
  exception or the standard output); with no outcome left the call fails.
  \<open>connects\<close> counts the calls of \<open>asyncssh.connect\<close>, \<open>runs\<close> lists the commands
  handed to \<open>client.run\<close>; \<open>client\<close> is the number of the current session or
  \<open>None\<close>.
\<close>

record ssh_connection =
  client :: "nat option"
  connects :: nat
  runs :: "string list"
  connect_reply :: "py_error option list"
  run_reply :: "(py_error + string) list"

definition async_init_session :: "ssh_connection \<Rightarrow> (py_error + unit) \<times> ssh_connection" where
  "async_init_session self =
     (case connect_reply self of
        [] \<Rightarrow> (Inl ConnectionError, self\<lparr>connects := Suc (connects self)\<rparr>)
      | Some e # rest \<Rightarrow>
          (Inl e, self\<lparr>connects := Suc (connects self), connect_reply := rest\<rparr>)
      | None # rest \<Rightarrow>
          (Inr (), self\<lparr>client := Some (connects self), connects := Suc (connects self),
                       connect_reply := rest\<rparr>))"

text \<open>\<open>str.split('\<bslash>n')\<close>.\<close>

fun split_lines :: "string \<Rightarrow> string list" where
  "split_lines [] = [[]]"
| "split_lines (c # cs) =
     (if code c = 10 then [] # split_lines cs
      else (case split_lines cs of l # ls \<Rightarrow> (c # l) # ls | [] \<Rightarrow> [[c]]))"

definition client_run :: "string \<Rightarrow> ssh_connection \<Rightarrow> (py_error + string) \<times> ssh_connection" where
  "client_run command self =
     (case client self of
        None \<Rightarrow> (Inl AttributeError, self)
      | Some _ \<Rightarrow>
          (case run_reply self of
             [] \<Rightarrow> (Inl ConnectionError, self\<lparr>runs := runs self @ [command]\<rparr>)
           | r # rest \<Rightarrow> (r, self\<lparr>runs := runs self @ [command], run_reply := rest\<rparr>)))"

definition async_run_command ::
    "string \<Rightarrow> bool \<Rightarrow> ssh_connection \<Rightarrow> (py_error + cmd_value) \<times> ssh_connection" where
  "async_run_command command retry self =
     (case (if client self = None then async_init_session self else (Inr (), self)) of
        (Inl e, self1) \<Rightarrow> (Inl e, self1)
      | (Inr _, self1) \<Rightarrow>
          (case client_run command self1 of
             (Inl ChannelOpenError, self2) \<Rightarrow>
               (if \<not> retry
                then (case async_init_session self2 of
                        (Inl e, self3) \<Rightarrow> (Inl e, self3)
                      | (Inr _, self3) \<Rightarrow> (Inr (Coroutine command True), self3))
                else (Inr (Lines []), self2))
           | (Inl e, self2) \<Rightarrow> (Inl e, self2)
           | (Inr stdout, self2) \<Rightarrow> (Inr (Lines (split_lines stdout)), self2)))"

section \<open>Notions used in the statements and proofs\<close>

text \<open>Every key of a device table is the \<open>mac\<close> field of the device stored under it.\<close>

definition keyed_by_mac :: "devices \<Rightarrow> bool" where
  "keyed_by_mac t = (\<forall>(k, d) \<in> set t. mac d = k)"

text \<open>
  \<open>pairs_sep hex sep n s\<close>: the string \<open>s\<close> is \<open>n\<close> pairs of \<open>hex\<close> characters, each
  followed by a \<open>sep\<close> character, and one last pair. A MAC address has \<open>n = 5\<close>.
\<close>

fun pairs_sep :: "(char \<Rightarrow> bool) \<Rightarrow> (char \<Rightarrow> bool) \<Rightarrow> nat \<Rightarrow> string \<Rightarrow> bool" where
  "pairs_sep hex sep 0 [a, b] = (hex a \<and> hex b)"
| "pairs_sep hex sep (Suc n) (a # b # x # rest) =
     (hex a \<and> hex b \<and> sep x \<and> pairs_sep hex sep n rest)"
| "pairs_sep hex sep n s = False"

text \<open>
  A pattern keeps the invariant that every text captured under the name \<open>g\<close>
  satisfies \<open>P\<close>; a pattern that captures \<open>g\<close> in each of its matches; a matcher state
  that extends another by captures named in \<open>G\<close>.
\<close>

definition captures_only :: "string \<Rightarrow> (string \<Rightarrow> bool) \<Rightarrow> regex \<Rightarrow> bool" where
  "captures_only g P r =
     (\<forall>st st'. st' \<in> set (rmatch r st) \<longrightarrow> (\<forall>t. (g, t) \<in> set (fst st) \<longrightarrow> P t) \<longrightarrow>
        (\<forall>t. (g, t) \<in> set (fst st') \<longrightarrow> P t))"

definition always_captures :: "string \<Rightarrow> regex \<Rightarrow> bool" where
  "always_captures g r = (\<forall>st st'. st' \<in> set (rmatch r st) \<longrightarrow> g \<in> fst ` set (fst st'))"

definition extends :: "string set \<Rightarrow> mstate \<Rightarrow> mstate \<Rightarrow> bool" where
  "extends G st st' = (\<exists>pre. fst st' = pre @ fst st \<and> fst ` set pre \<subseteq> G)"

text \<open>
  The canonical form of a MAC address in the specification's words: six pairs of
  uppercase hexadecimal digits separated by colons; and the form with either
  separator.
\<close>

definition upper_hex_digit :: "char \<Rightarrow> bool" where
  "upper_hex_digit c = (in_range CHR ''0'' CHR ''9'' c \<or> in_range CHR ''A'' CHR ''F'' c)"

definition canonical_mac :: "string \<Rightarrow> bool" where
  "canonical_mac s = pairs_sep upper_hex_digit (\<lambda>c. c = CHR '':'') 5 s"

definition upper_mac :: "string \<Rightarrow> bool" where
  "upper_mac s = pairs_sep upper_hex_digit (\<lambda>c. c = CHR '':'' \<or> c = CHR ''-'') 5 s"

text \<open>A connection that will answer the next commands with the given outputs.\<close>

definition answering :: "string list list \<Rightarrow> connection" where
  "answering outputs = \<lparr>replies = map (\<lambda>ls. Inr (Lines ls)) outputs, issued = []\<rparr>"


text \<open>
  A record of the neighbour pattern that is \<open>REACHABLE\<close> (in any case of letters) and
  whose MAC address, in upper case, is \<open>k\<close>.
\<close>

definition reachable_record :: "groupdict \<Rightarrow> string \<Rightarrow> bool" where
  "reachable_record r k =
     (case map_of r ''mac'' of
        Some (Some m) \<Rightarrow>
          upper m = k \<and>
          (case map_of r ''status'' of
             Some (Some st) \<Rightarrow> upper st = ''REACHABLE''
           | _ \<Rightarrow> False)
      | _ \<Rightarrow> False)"

text \<open>The outputs of the four commands in the examples below.\<close>

definition wl_output :: "string list" where
  "wl_output = [''w AA:BB:CC:DD:EE:01'']"

definition arp_output :: "string list" where
  "arp_output = [''? (10.0.0.2) at aa:bb:cc:dd:ee:02 x'']"

definition neigh_output :: "string list" where
  "neigh_output =
     [''10.0.0.3 dev br0 lladdr aa:bb:cc:dd:ee:03 REACHABLE'',
      ''10.0.0.4 dev br0 lladdr aa:bb:cc:dd:ee:04 STALE'']"

definition leases_output :: "string list" where
  "leases_output =
     [''1 aa:bb:cc:dd:ee:01 10.0.0.1 * x'',
      ''1 aa:bb:cc:dd:ee:09 10.0.0.9 ghost x'']"

section \<open>Auxiliary facts\<close>

subsection \<open>Exceptions and dictionaries\<close>

lemma bindE_Inl [simp]: "bindE (Inl e) f = Inl e"
  by (simp add: bindE_def)

lemma bindE_Inr [simp]: "bindE (Inr x) f = f x"
  by (simp add: bindE_def)

lemma bindE_Inr_iff: "bindE m f = Inr y \<longleftrightarrow> (\<exists>x. m = Inr x \<and> f x = Inr y)"
  by (cases m) simp_all

lemma getitem_Inr_iff: "getitem d k = Inr v \<longleftrightarrow> map_of d k = Some v"
  by (simp add: getitem_def split: option.splits)

lemma upper_of_Inr_iff: "upper_of m = Inr s \<longleftrightarrow> (\<exists>t. m = Some t \<and> s = upper t)"
  by (auto simp: upper_of_def split: option.splits)

lemma set_update_subset: "set (AList.update k v al) \<subseteq> insert (k, v) (set al)"
  by (induction al) auto

lemma set_dict_update_subset: "set (dict_update d other) \<subseteq> set d \<union> set other"
proof (induction other arbitrary: d)
  case Nil
  show ?case by (simp add: dict_update_def)
next
  case (Cons p ps)
  obtain k v where p: "p = (k, v)" by (cases p)
  have "dict_update d (p # ps) = dict_update (AList.update k v d) ps"
    by (simp add: dict_update_def p)
  moreover have "set (dict_update (AList.update k v d) ps) \<subseteq> set (AList.update k v d) \<union> set ps"
    by (rule Cons.IH)
  ultimately show ?case
    using set_update_subset [of k v d] by (auto simp: p)
qed

lemma keys_dict_update: "fst ` set (dict_update d other) = fst ` set d \<union> fst ` set other"
proof (induction other arbitrary: d)
  case Nil
  show ?case by (simp add: dict_update_def)
next
  case (Cons p ps)
  obtain k v where p: "p = (k, v)" by (cases p)
  have "dict_update d (p # ps) = dict_update (AList.update k v d) ps"
    by (simp add: dict_update_def p)
  then show ?case
    using Cons.IH [of "AList.update k v d"] by (auto simp: p dom_update)
qed

lemma in_updateD: "x \<in> set (AList.update k v al) \<Longrightarrow> x = (k, v) \<or> x \<in> set al"
  using set_update_subset [of k v al] by blast

lemma wl_loop_items:
  "wl_loop rs acc = Inr t \<Longrightarrow> (k, d) \<in> set t \<Longrightarrow>
   (k, d) \<in> set acc \<or>
   (\<exists>r \<in> set rs. \<exists>m. map_of r ''mac'' = Some (Some m) \<and> k = upper m \<and>
      d = Device (upper m) None None)"
proof (induction rs arbitrary: acc)
  case Nil
  then show ?case by simp
next
  case (Cons r rs)
  from Cons.prems(1) obtain m where m: "map_of r ''mac'' = Some (Some m)"
    and rest: "wl_loop rs (AList.update (upper m) (Device (upper m) None None) acc) = Inr t"
    by (auto simp: bindE_Inr_iff getitem_Inr_iff upper_of_Inr_iff)
  from Cons.IH [OF rest Cons.prems(2)] show ?case
  proof
    assume "(k, d) \<in> set (AList.update (upper m) (Device (upper m) None None) acc)"
    then have "(k, d) = (upper m, Device (upper m) None None) \<or> (k, d) \<in> set acc"
      by (rule in_updateD)
    with m show ?thesis by auto
  next
    assume "\<exists>r \<in> set rs. \<exists>m. map_of r ''mac'' = Some (Some m) \<and> k = upper m \<and>
      d = Device (upper m) None None"
    then show ?thesis by auto
  qed
qed

lemma arp_loop_items:
  "arp_loop rs acc = Inr t \<Longrightarrow> (k, d) \<in> set t \<Longrightarrow>
   (k, d) \<in> set acc \<or>
   (\<exists>r \<in> set rs. \<exists>m i. map_of r ''mac'' = Some (Some m) \<and> map_of r ''ip'' = Some i \<and>
      k = upper m \<and> d = Device (upper m) i None)"
proof (induction rs arbitrary: acc)
  case Nil
  then show ?case by simp
next
  case (Cons r rs)
  from Cons.prems(1) obtain mo where mo: "map_of r ''mac'' = Some mo"
    by (auto simp: bindE_Inr_iff getitem_Inr_iff)
  show ?case
  proof (cases mo)
    case None
    with Cons.prems(1) mo have "arp_loop rs acc = Inr t"
      by (simp add: getitem_def)
    from Cons.IH [OF this Cons.prems(2)] show ?thesis by auto
  next
    case (Some m)
    with Cons.prems(1) mo obtain i where i: "map_of r ''ip'' = Some i"
      and rest: "arp_loop rs (AList.update (upper m) (Device (upper m) i None) acc) = Inr t"
      by (auto simp: getitem_def upper_of_def bindE_Inr_iff split: option.splits)
    from Cons.IH [OF rest Cons.prems(2)] show ?thesis
    proof
      assume "(k, d) \<in> set (AList.update (upper m) (Device (upper m) i None) acc)"
      then have "(k, d) = (upper m, Device (upper m) i None) \<or> (k, d) \<in> set acc"
        by (rule in_updateD)
      with mo Some i show ?thesis by auto
    next
      assume "\<exists>r \<in> set rs. \<exists>m i. map_of r ''mac'' = Some (Some m) \<and> map_of r ''ip'' = Some i \<and>
        k = upper m \<and> d = Device (upper m) i None"
      then show ?thesis by auto
    qed
  qed
qed

lemma leases_loop_items:
  "leases_loop cur rs acc = Inr t \<Longrightarrow> (k, d) \<in> set t \<Longrightarrow>
   (k, d) \<in> set acc \<or>
   (\<exists>r \<in> set rs. \<exists>m i h0. map_of r ''mac'' = Some (Some m) \<and> map_of r ''ip'' = Some i \<and>
      map_of r ''host'' = Some h0 \<and> map_of cur (upper m) \<noteq> None \<and> k = upper m \<and>
      d = Device (upper m) i (if h0 = Some ''*'' then Some [] else h0))"
proof (induction rs arbitrary: acc)
  case Nil
  then show ?case by simp
next
  case (Cons r rs)
  from Cons.prems(1) obtain h0 m where h0: "map_of r ''host'' = Some h0"
    and m: "map_of r ''mac'' = Some (Some m)"
    by (auto simp: bindE_Inr_iff getitem_Inr_iff upper_of_Inr_iff Let_def)
  show ?case
  proof (cases "map_of cur (upper m) \<noteq> None")
    case False
    with Cons.prems(1) h0 m have "leases_loop cur rs acc = Inr t"
      by (simp add: getitem_def upper_of_def Let_def)
    from Cons.IH [OF this Cons.prems(2)] show ?thesis by (auto split del: if_split)
  next
    case True
    define h where "h = (if h0 = Some ''*'' then Some [] else h0)"
    from True Cons.prems(1) h0 m obtain i where i: "map_of r ''ip'' = Some i"
      and rest: "leases_loop cur rs (AList.update (upper m) (Device (upper m) i h) acc) = Inr t"
      by (auto simp: getitem_def upper_of_def bindE_Inr_iff Let_def h_def split: option.splits)
    from Cons.IH [OF rest Cons.prems(2)] show ?thesis
    proof
      assume "(k, d) \<in> set (AList.update (upper m) (Device (upper m) i h) acc)"
      then have "(k, d) = (upper m, Device (upper m) i h) \<or> (k, d) \<in> set acc"
        by (rule in_updateD)
      with True h0 m i show ?thesis unfolding h_def by (auto split del: if_split)
    next
      assume "\<exists>r \<in> set rs. \<exists>m i h0. map_of r ''mac'' = Some (Some m) \<and> map_of r ''ip'' = Some i \<and>
        map_of r ''host'' = Some h0 \<and> map_of cur (upper m) \<noteq> None \<and> k = upper m \<and>
        d = Device (upper m) i (if h0 = Some ''*'' then Some [] else h0)"
      then show ?thesis by (auto split del: if_split)
    qed
  qed
qed

lemma neigh_loop_items:
  "neigh_loop cur rs acc = Inr t \<Longrightarrow> (k, d) \<in> set t \<Longrightarrow>
   (k, d) \<in> set acc \<or>
   (\<exists>r \<in> set rs. \<exists>m st. map_of r ''mac'' = Some (Some m) \<and>
      map_of r ''status'' = Some (Some st) \<and> upper st = ''REACHABLE'' \<and> k = upper m \<and>
      d = Device (upper m)
            (dict_get r ''ip'' (case map_of cur (upper m) of Some d \<Rightarrow> ip d | None \<Rightarrow> None))
            None)"
proof (induction rs arbitrary: acc)
  case Nil
  then show ?case by simp
next
  case (Cons r rs)
  from Cons.prems(1) obtain so where so: "map_of r ''status'' = Some so"
    by (auto simp: bindE_Inr_iff getitem_Inr_iff)
  show ?case
  proof (cases "case so of None \<Rightarrow> True | Some st \<Rightarrow> upper st \<noteq> ''REACHABLE''")
    case True
    with Cons.prems(1) so have "neigh_loop cur rs acc = Inr t"
      by (simp add: getitem_def)
    from Cons.IH [OF this Cons.prems(2)] show ?thesis by auto
  next
    case False
    then obtain st where st: "so = Some st" "upper st = ''REACHABLE''"
      by (auto split: option.splits)
    from False Cons.prems(1) so obtain mo where mo: "map_of r ''mac'' = Some mo"
      by (auto simp: getitem_def bindE_Inr_iff split: option.splits)
    show ?thesis
    proof (cases mo)
      case None
      with False Cons.prems(1) so mo have "neigh_loop cur rs acc = Inr t"
        by (simp add: getitem_def)
      from Cons.IH [OF this Cons.prems(2)] show ?thesis by auto
    next
      case (Some m)
      define e where "e = Device (upper m)
         (dict_get r ''ip'' (case map_of cur (upper m) of Some d \<Rightarrow> ip d | None \<Rightarrow> None)) None"
      from False Cons.prems(1) so mo Some
      have rest: "neigh_loop cur rs (AList.update (upper m) e acc) = Inr t"
        by (simp add: getitem_def upper_of_def Let_def e_def)
      from Cons.IH [OF rest Cons.prems(2)] show ?thesis
      proof
        assume "(k, d) \<in> set (AList.update (upper m) e acc)"
        then have "(k, d) = (upper m, e) \<or> (k, d) \<in> set acc"
          by (rule in_updateD)
        with so st mo Some show ?thesis unfolding e_def by auto
      next
        assume "\<exists>r \<in> set rs. \<exists>m st. map_of r ''mac'' = Some (Some m) \<and>
          map_of r ''status'' = Some (Some st) \<and> upper st = ''REACHABLE'' \<and> k = upper m \<and>
          d = Device (upper m)
            (dict_get r ''ip'' (case map_of cur (upper m) of Some d \<Rightarrow> ip d | None \<Rightarrow> None))
            None"
        then show ?thesis by auto
      qed
    qed
  qed
qed

lemma ret_loop_items:
  "ret_loop req ds ks acc = Inr t \<Longrightarrow> (k, d) \<in> set t \<Longrightarrow>
   (k, d) \<in> set acc \<or> ((k, d) \<in> set ds \<and> (\<not> req \<or> ip d \<noteq> None))"
proof (induction ks arbitrary: acc)
  case Nil
  then show ?case by simp
next
  case (Cons k' ks)
  from Cons.prems(1) obtain v where v: "map_of ds k' = Some v"
    by (auto simp: bindE_Inr_iff getitem_Inr_iff)
  then have mem: "(k', v) \<in> set ds" by (rule map_of_SomeD)
  show ?case
  proof (cases "\<not> req \<or> ip v \<noteq> None")
    case True
    with Cons.prems(1) v have "ret_loop req ds ks (AList.update k' v acc) = Inr t"
      by (simp add: getitem_def)
    from Cons.IH [OF this Cons.prems(2)] show ?thesis
    proof
      assume "(k, d) \<in> set (AList.update k' v acc)"
      then have "(k, d) = (k', v) \<or> (k, d) \<in> set acc" by (rule in_updateD)
      with mem True show ?thesis by auto
    qed simp
  next
    case False
    with Cons.prems(1) v have "ret_loop req ds ks acc = Inr t"
      by (simp add: getitem_def)
    from Cons.IH [OF this Cons.prems(2)] show ?thesis .
  qed
qed

subsection \<open>One run of the reconciliation\<close>

lemma bindM_Inr:
  "bindM m f self = (Inr y, s') \<Longrightarrow> \<exists>x s1. m self = (Inr x, s1) \<and> f x s1 = (Inr y, s')"
  by (auto simp: bindM_def split: prod.splits sum.splits)

lemma bindM_fst_Inr:
  "fst (bindM m f self) = Inr y \<Longrightarrow> \<exists>x s1. m self = (Inr x, s1) \<and> fst (f x s1) = Inr y"
  by (auto simp: bindM_def split: prod.splits sum.splits)

lemma run_then_Inr:
  assumes "bindM (await_run_command cmd) (\<lambda>lines. finish (g lines)) self = (Inr t, s1)"
  shows "\<exists>v rs. replies (connection self) = Inr v # rs \<and> g v = Inr t \<and>
           replies (connection s1) = rs \<and> mode s1 = mode self \<and>
           require_ip s1 = require_ip self"
  using assms
  by (auto simp: bindM_def await_run_command_def finish_def Let_def
           split: list.splits sum.splits)

lemma connected_devices_Inr:
  assumes "fst (async_get_connected_devices self) = Inr table"
  shows "\<exists>w a n rest wl arp neigh d4.
           replies (connection self) = Inr w # Inr a # Inr n # rest \<and>
           wl_devices w = Inr wl \<and> arp_devices a = Inr arp \<and>
           neigh_devices (dict_update (dict_update [] wl) arp) n = Inr neigh \<and>
           (mode self = ''ap'' \<and>
              d4 = dict_update (dict_update (dict_update [] wl) arp) neigh \<or>
            mode self \<noteq> ''ap'' \<and>
              (\<exists>l rest' leases. rest = Inr l # rest' \<and>
                 leases_devices (dict_update (dict_update (dict_update [] wl) arp) neigh) l
                   = Inr leases \<and>
                 d4 = dict_update (dict_update (dict_update (dict_update [] wl) arp) neigh)
                        leases)) \<and>
           ret_loop (require_ip self) d4 (map fst d4) [] = Inr table"
proof -
  from assms obtain wl s1 where wl: "async_get_wl self = (Inr wl, s1)"
    and r1: "fst (bindM async_get_arp (\<lambda>arp.
       bindM (async_get_neigh (dict_update (dict_update [] wl) arp)) (\<lambda>neigh.
       bindM (leases_step (dict_update (dict_update (dict_update [] wl) arp) neigh))
         ret_step)) s1) = Inr table"
    unfolding async_get_connected_devices_def by (blast dest: bindM_fst_Inr)
  from r1 obtain arp s2 where arp: "async_get_arp s1 = (Inr arp, s2)"
    and r2: "fst (bindM (async_get_neigh (dict_update (dict_update [] wl) arp)) (\<lambda>neigh.
       bindM (leases_step (dict_update (dict_update (dict_update [] wl) arp) neigh))
         ret_step) s2) = Inr table"
    by (blast dest: bindM_fst_Inr)
  define d2 where "d2 = dict_update (dict_update [] wl) arp"
  from r2 obtain neigh s3 where neigh: "async_get_neigh d2 s2 = (Inr neigh, s3)"
    and r3: "fst (bindM (leases_step (dict_update d2 neigh)) ret_step s3) = Inr table"
    unfolding d2_def by (blast dest: bindM_fst_Inr)
  define d3 where "d3 = dict_update d2 neigh"
  from r3 obtain d4 s4 where ls: "leases_step d3 s3 = (Inr d4, s4)"
    and r4: "fst (ret_step d4 s4) = Inr table"
    unfolding d3_def by (blast dest: bindM_fst_Inr)
  from wl obtain w rs1 where w: "replies (connection self) = Inr w # rs1"
    "wl_devices w = Inr wl" "replies (connection s1) = rs1" "mode s1 = mode self"
    "require_ip s1 = require_ip self"
    unfolding async_get_wl_def by (blast dest: run_then_Inr)
  from arp obtain a rs2 where a: "replies (connection s1) = Inr a # rs2"
    "arp_devices a = Inr arp" "replies (connection s2) = rs2" "mode s2 = mode s1"
    "require_ip s2 = require_ip s1"
    unfolding async_get_arp_def by (blast dest: run_then_Inr)
  from neigh obtain n rs3 where n: "replies (connection s2) = Inr n # rs3"
    "neigh_devices d2 n = Inr neigh" "replies (connection s3) = rs3" "mode s3 = mode s2"
    "require_ip s3 = require_ip s2"
    unfolding async_get_neigh_def by (blast dest: run_then_Inr)
  have modes: "mode s3 = mode self" "require_ip s3 = require_ip self"
    using w a n by simp_all
  have rep: "replies (connection self) = Inr w # Inr a # Inr n # rs3"
    using w a n by simp
  have step: "(mode self = ''ap'' \<and> d4 = d3 \<or>
     mode self \<noteq> ''ap'' \<and>
       (\<exists>l rest' leases. rs3 = Inr l # rest' \<and> leases_devices d3 l = Inr leases \<and>
          d4 = dict_update d3 leases)) \<and> require_ip s4 = require_ip self"
  proof (cases "mode self = ''ap''")
    case True
    with ls modes show ?thesis by (simp add: leases_step_def finish_def)
  next
    case False
    with ls modes have "bindM (async_get_leases d3)
       (\<lambda>leases. finish (Inr (dict_update d3 leases))) s3 = (Inr d4, s4)"
      by (simp add: leases_step_def)
    then obtain leases s3' where le: "async_get_leases d3 s3 = (Inr leases, s3')"
      and fin: "finish (Inr (dict_update d3 leases)) s3' = (Inr d4, s4)"
      by (blast dest: bindM_Inr)
    from le obtain l rs4 where l: "replies (connection s3) = Inr l # rs4"
      "leases_devices d3 l = Inr leases" "require_ip s3' = require_ip s3"
      unfolding async_get_leases_def by (blast dest: run_then_Inr)
    from fin have "d4 = dict_update d3 leases" "s4 = s3'"
      by (simp_all add: finish_def)
    with False l n modes show ?thesis by auto
  qed
  from r4 step have "ret_loop (require_ip self) d4 (map fst d4) [] = Inr table"
    by (simp add: ret_step_def finish_def)
  with rep w(2) a(2) n(2) step show ?thesis
    unfolding d3_def d2_def by blast
qed

subsection \<open>The matcher\<close>

lemma in_one_char_iff:
  "(c', s') \<in> set (one_char p (c, s)) \<longleftrightarrow> (\<exists>a. s = a # s' \<and> p a \<and> c' = c)"
  by (cases s) auto

lemma in_iter_0_iff: "st' \<in> set (iter f lo 0 st) \<longleftrightarrow> lo = 0 \<and> st' = st"
  by auto

lemma one_char_fst: "st' \<in> set (one_char p st) \<Longrightarrow> fst st' = fst st"
proof -
  assume a: "st' \<in> set (one_char p st)"
  obtain c s c' s' where "st = (c, s)" "st' = (c', s')" by (cases st, cases st') auto
  with a show ?thesis by (auto simp: in_one_char_iff)
qed

lemma in_iter_Suc_iff:
  "st' \<in> set (iter f lo (Suc n) st) \<longleftrightarrow>
     (\<exists>st1 \<in> set (f st). st' \<in> set (iter f (lo - 1) n st1)) \<or> (lo = 0 \<and> st' = st)"
  by auto

text \<open>A relation kept by every round is kept by the repetition.\<close>

lemma iter_relation:
  assumes step: "\<And>st st'. st' \<in> set (f st) \<Longrightarrow> R st st'"
    and refl: "\<And>st. R st st"
    and trans: "\<And>a b c. R a b \<Longrightarrow> R b c \<Longrightarrow> R a c"
  shows "st' \<in> set (iter f lo n st) \<Longrightarrow> R st st'"
proof (induction n arbitrary: lo st)
  case 0
  then show ?case by (simp add: refl split: if_splits)
next
  case (Suc n)
  from Suc.prems consider
    st1 where "st1 \<in> set (f st)" "st' \<in> set (iter f (lo - 1) n st1)" | "st' = st"
    unfolding in_iter_Suc_iff by blast
  then show ?case
  proof cases
    case 1
    from step [OF 1(1)] Suc.IH [OF 1(2)] show ?thesis by (rule trans)
  next
    case 2
    then show ?thesis by (simp add: refl)
  qed
qed

lemma extends_refl: "extends G st st"
  by (simp add: extends_def)

lemma extends_trans: "extends G a b \<Longrightarrow> extends G b c \<Longrightarrow> extends G a c"
  unfolding extends_def by (metis (no_types, lifting) Un_subset_iff append.assoc image_Un set_append)

lemma extends_mono: "extends G a b \<Longrightarrow> G \<subseteq> H \<Longrightarrow> extends H a b"
  unfolding extends_def by blast

lemma rmatch_extends:
  "st' \<in> set (rmatch r st) \<Longrightarrow> extends (set (group_names r)) st st'"
proof (induction r arbitrary: st st')
  case (Sym cs)
  then have "fst st' = fst st" by (auto dest: one_char_fst)
  then show ?case by (simp add: extends_def)
next
  case (NSym cs)
  then have "fst st' = fst st" by (auto dest: one_char_fst)
  then show ?case by (simp add: extends_def)
next
  case Dot
  then have "fst st' = fst st" by (auto dest: one_char_fst)
  then show ?case by (simp add: extends_def)
next
  case (Seq r1 r2)
  from Seq.prems obtain st1 where "st1 \<in> set (rmatch r1 st)" "st' \<in> set (rmatch r2 st1)"
    by auto
  then have "extends (set (group_names r1)) st st1" "extends (set (group_names r2)) st1 st'"
    using Seq.IH by blast+
  then have "extends (set (group_names (Seq r1 r2))) st st1"
    "extends (set (group_names (Seq r1 r2))) st1 st'"
    by (auto elim!: extends_mono)
  then show ?case by (rule extends_trans)
next
  case (Alt r1 r2)
  from Alt.prems consider "st' \<in> set (rmatch r1 st)" | "st' \<in> set (rmatch r2 st)"
    by auto
  then show ?case
  proof cases
    case 1
    then have "extends (set (group_names r1)) st st'" by (rule Alt.IH)
    then show ?thesis by (rule extends_mono) simp
  next
    case 2
    then have "extends (set (group_names r2)) st st'" by (rule Alt.IH)
    then show ?thesis by (rule extends_mono) simp
  qed
next
  case (Rep lo hi r)
  from Rep.prems have "st' \<in> set (iter (rmatch r) lo (rounds hi st) st)" by simp
  then have "extends (set (group_names r)) st st'"
    by (rule iter_relation [rotated 3]) (auto intro: Rep.IH extends_refl elim: extends_trans)
  then show ?case by simp
next
  case (Named g r)
  from Named.prems obtain st1 where st1: "st1 \<in> set (rmatch r st)"
    and st': "st' = capture g (snd st) st1" by auto
  from Named.IH [OF st1] obtain pre where "fst st1 = pre @ fst st"
    "fst ` set pre \<subseteq> set (group_names r)" unfolding extends_def by blast
  then have "fst st' = ((g, take (length (snd st) - length (snd st1)) (snd st)) # pre) @ fst st"
    "fst ` set ((g, take (length (snd st) - length (snd st1)) (snd st)) # pre)
       \<subseteq> set (group_names (Named g r))"
    by (auto simp: st' capture_def)
  then show ?case unfolding extends_def by blast
qed

lemma in_rep2_iff:
  "(c', s') \<in> set (rmatch (Rep 2 (Some 2) (Sym cs)) (c, s)) \<longleftrightarrow>
     (\<exists>a b. s = a # b # s' \<and> in_classes cs a \<and> in_classes cs b \<and> c' = c)"
  by (auto simp: rounds_def numeral_2_eq_2 in_one_char_iff)

lemma in_pair_sep_iff:
  "(c', s') \<in> set (rmatch (Seq (Rep 2 (Some 2) (Sym cs)) (Sym seps)) (c, s)) \<longleftrightarrow>
     (\<exists>a b x. s = a # b # x # s' \<and> in_classes cs a \<and> in_classes cs b \<and>
        in_classes seps x \<and> c' = c)"
proof -
  have "(c', s') \<in> set (rmatch (Seq (Rep 2 (Some 2) (Sym cs)) (Sym seps)) (c, s)) \<longleftrightarrow>
    (\<exists>c1 s1. (c1, s1) \<in> set (rmatch (Rep 2 (Some 2) (Sym cs)) (c, s)) \<and>
       (c', s') \<in> set (one_char (in_classes seps) (c1, s1)))"
    by auto
  then show ?thesis
    unfolding in_rep2_iff in_one_char_iff by auto
qed

lemma iter_pairs:
  assumes "(c', s') \<in> set (iter (rmatch (Seq (Rep 2 (Some 2) (Sym cs)) (Sym seps))) n n (c, s))"
    and "(c'', s'') \<in> set (rmatch (Rep 2 (Some 2) (Sym cs)) (c', s'))"
  shows "c'' = c \<and> (\<exists>t. s = t @ s'' \<and>
     pairs_sep (in_classes cs) (in_classes seps) n t)"
  using assms
proof (induction n arbitrary: c s)
  case 0
  then have "c' = c" "s' = s" by auto
  with 0(2) obtain a b where "s = a # b # s''" "in_classes cs a"
    "in_classes cs b" "c'' = c"
    unfolding in_rep2_iff by blast
  then have "s = [a, b] @ s''"
    "pairs_sep (in_classes cs) (in_classes seps) 0 [a, b]"
    by simp_all
  with \<open>c'' = c\<close> show ?case by blast
next
  case (Suc n)
  from Suc.prems(1) obtain c1 s1 where
    first: "(c1, s1) \<in> set (rmatch (Seq (Rep 2 (Some 2) (Sym cs)) (Sym seps)) (c, s))"
    and rest: "(c', s') \<in> set (iter (rmatch (Seq (Rep 2 (Some 2) (Sym cs)) (Sym seps))) n n (c1, s1))"
    unfolding in_iter_Suc_iff by auto
  from first obtain a b x where abx: "s = a # b # x # s1" "in_classes cs a"
    "in_classes cs b" "in_classes seps x" "c1 = c"
    unfolding in_pair_sep_iff by blast
  from Suc.IH [OF rest Suc.prems(2)] obtain t where t: "c'' = c1" "s1 = t @ s''"
    "pairs_sep (in_classes cs) (in_classes seps) n t"
    by blast
  from abx t have "s = (a # b # x # t) @ s''"
    "pairs_sep (in_classes cs) (in_classes seps) (Suc n)
       (a # b # x # t)"
    by simp_all
  with abx(5) t(1) show ?case by blast
qed

lemma mac_pattern_sound:
  assumes "(c', s') \<in> set (rmatch (mac_pattern (Sym cs)) (c, s))"
  shows "c' = c \<and> (\<exists>t. s = t @ s' \<and>
     pairs_sep (in_classes cs) (in_classes [Lit CHR '':'', Lit CHR ''-'']) 5 t)"
proof -
  from assms obtain c1 s1 where
    "(c1, s1) \<in> set (iter (rmatch (Seq (Rep 2 (Some 2) (Sym cs))
                        (Sym [Lit CHR '':'', Lit CHR ''-'']))) 5 5 (c, s))"
    "(c', s') \<in> set (rmatch (Rep 2 (Some 2) (Sym cs)) (c1, s1))"
    by (auto simp: mac_pattern_def rounds_def)
  from iter_pairs [OF this] show ?thesis by simp
qed

lemma named_mac_pattern:
  assumes "st' \<in> set (rmatch (Named g (mac_pattern (Sym cs))) st)"
  shows "\<exists>t. fst st' = (g, t) # fst st \<and>
     pairs_sep (in_classes cs) (in_classes [Lit CHR '':'', Lit CHR ''-'']) 5 t"
proof -
  obtain c s where st: "st = (c, s)" by (cases st)
  from assms obtain c1 s1 where m: "(c1, s1) \<in> set (rmatch (mac_pattern (Sym cs)) (c, s))"
    and st': "st' = capture g s (c1, s1)"
    by (auto simp: st)
  from mac_pattern_sound [OF m] obtain t where t: "c1 = c" "s = t @ s1"
    "pairs_sep (in_classes cs) (in_classes [Lit CHR '':'', Lit CHR ''-'']) 5 t"
    by blast
  then have "fst st' = (g, t) # fst st"
    by (simp add: st' capture_def st)
  with t(3) show ?thesis by blast
qed

lemma captures_onlyI:
  assumes "\<And>st st' t. st' \<in> set (rmatch r st) \<Longrightarrow> \<forall>t. (g, t) \<in> set (fst st) \<longrightarrow> P t \<Longrightarrow>
     (g, t) \<in> set (fst st') \<Longrightarrow> P t"
  shows "captures_only g P r"
  unfolding captures_only_def using assms by blast

lemma captures_onlyD:
  "captures_only g P r \<Longrightarrow> st' \<in> set (rmatch r st) \<Longrightarrow> \<forall>t. (g, t) \<in> set (fst st) \<longrightarrow> P t \<Longrightarrow>
   \<forall>t. (g, t) \<in> set (fst st') \<longrightarrow> P t"
  unfolding captures_only_def by blast

lemma captures_only_no_group:
  "g \<notin> set (group_names r) \<Longrightarrow> captures_only g P r"
proof (rule captures_onlyI)
  fix st st' t
  assume g: "g \<notin> set (group_names r)" and m: "st' \<in> set (rmatch r st)"
    and inv: "\<forall>t. (g, t) \<in> set (fst st) \<longrightarrow> P t" and t: "(g, t) \<in> set (fst st')"
  from rmatch_extends [OF m] obtain pre where "fst st' = pre @ fst st"
    "fst ` set pre \<subseteq> set (group_names r)" unfolding extends_def by blast
  with g t have "(g, t) \<in> set (fst st)" by force
  with inv show "P t" by blast
qed

lemma captures_only_Seq:
  assumes "captures_only g P r1" "captures_only g P r2"
  shows "captures_only g P (Seq r1 r2)"
proof (rule captures_onlyI)
  fix st st' t
  assume m: "st' \<in> set (rmatch (Seq r1 r2) st)"
    and inv: "\<forall>t. (g, t) \<in> set (fst st) \<longrightarrow> P t" and t: "(g, t) \<in> set (fst st')"
  from m obtain st1 where 1: "st1 \<in> set (rmatch r1 st)" and 2: "st' \<in> set (rmatch r2 st1)"
    by auto
  from captures_onlyD [OF assms(2) 2 captures_onlyD [OF assms(1) 1 inv]] t
  show "P t" by blast
qed

lemma captures_only_Alt:
  assumes "captures_only g P r1" "captures_only g P r2"
  shows "captures_only g P (Alt r1 r2)"
proof (rule captures_onlyI)
  fix st st' t
  assume m: "st' \<in> set (rmatch (Alt r1 r2) st)"
    and inv: "\<forall>t. (g, t) \<in> set (fst st) \<longrightarrow> P t" and t: "(g, t) \<in> set (fst st')"
  from m consider "st' \<in> set (rmatch r1 st)" | "st' \<in> set (rmatch r2 st)" by auto
  then show "P t"
  proof cases
    case 1
    from captures_onlyD [OF assms(1) 1 inv] t show ?thesis by blast
  next
    case 2
    from captures_onlyD [OF assms(2) 2 inv] t show ?thesis by blast
  qed
qed

lemma captures_only_Rep:
  assumes "captures_only g P r"
  shows "captures_only g P (Rep lo hi r)"
proof (rule captures_onlyI)
  fix st st' t
  assume m: "st' \<in> set (rmatch (Rep lo hi r) st)"
    and inv: "\<forall>t. (g, t) \<in> set (fst st) \<longrightarrow> P t" and t: "(g, t) \<in> set (fst st')"
  define R where "R a b \<longleftrightarrow> ((\<forall>t. (g, t) \<in> set (fst a) \<longrightarrow> P t) \<longrightarrow>
     (\<forall>t. (g, t) \<in> set (fst b) \<longrightarrow> P t))" for a b :: mstate
  have step: "\<And>a b. b \<in> set (rmatch r a) \<Longrightarrow> R a b"
    unfolding R_def using captures_onlyD [OF assms] by blast
  have refl: "\<And>a. R a a" unfolding R_def by blast
  have trans: "\<And>a b c. R a b \<Longrightarrow> R b c \<Longrightarrow> R a c" unfolding R_def by blast
  from m have "st' \<in> set (iter (rmatch r) lo (rounds hi st) st)" by simp
  then have "R st st'" using step refl trans by (rule iter_relation [rotated 3])
  with inv t show "P t" unfolding R_def by blast
qed

lemma captures_only_Named_other:
  assumes "captures_only g P r" "g' \<noteq> g"
  shows "captures_only g P (Named g' r)"
proof (rule captures_onlyI)
  fix st st' t
  assume m: "st' \<in> set (rmatch (Named g' r) st)"
    and inv: "\<forall>t. (g, t) \<in> set (fst st) \<longrightarrow> P t" and t: "(g, t) \<in> set (fst st')"
  from m obtain st1 where st1: "st1 \<in> set (rmatch r st)" and st': "st' = capture g' (snd st) st1"
    by auto
  from t assms(2) have "(g, t) \<in> set (fst st1)" by (auto simp: st' capture_def)
  with captures_onlyD [OF assms(1) st1 inv] show "P t" by blast
qed

lemma captures_only_Named_mac:
  "captures_only g (pairs_sep (in_classes cs) (in_classes [Lit CHR '':'', Lit CHR ''-'']) 5)
     (Named g (mac_pattern (Sym cs)))"
proof (rule captures_onlyI)
  fix st st' t
  assume m: "st' \<in> set (rmatch (Named g (mac_pattern (Sym cs))) st)"
    and inv: "\<forall>t. (g, t) \<in> set (fst st) \<longrightarrow>
      pairs_sep (in_classes cs) (in_classes [Lit CHR '':'', Lit CHR ''-'']) 5 t"
    and t: "(g, t) \<in> set (fst st')"
  from named_mac_pattern [OF m] inv t
  show "pairs_sep (in_classes cs) (in_classes [Lit CHR '':'', Lit CHR ''-'']) 5 t"
    by auto
qed

lemma captures_only_cat_Cons:
  "captures_only g P r \<Longrightarrow> captures_only g P (cat rs) \<Longrightarrow> captures_only g P (cat (r # rs))"
  by (cases rs) (auto intro: captures_only_Seq)

lemma captures_only_cat_Nil: "captures_only g P (cat [])"
  by (rule captures_only_no_group) simp

lemmas captures_only_intros =
  captures_only_cat_Cons captures_only_cat_Nil captures_only_Seq captures_only_Alt
  captures_only_Rep captures_only_Named_mac

lemma group_names_cat: "group_names (cat rs) = concat (map group_names rs)"
  by (induction rs rule: cat.induct) simp_all

lemma group_names_lit [simp]: "group_names (lit w) = []"
  by (induction w) (simp_all add: lit_def group_names_cat)

lemma always_capturesI:
  "(\<And>st st'. st' \<in> set (rmatch r st) \<Longrightarrow> g \<in> fst ` set (fst st')) \<Longrightarrow> always_captures g r"
  unfolding always_captures_def by blast

lemma always_capturesD:
  "always_captures g r \<Longrightarrow> st' \<in> set (rmatch r st) \<Longrightarrow> g \<in> fst ` set (fst st')"
  unfolding always_captures_def by blast

lemma always_captures_Named: "always_captures g (Named g r)"
  by (rule always_capturesI) (auto simp: capture_def)

lemma always_captures_Seq1:
  assumes "always_captures g r1"
  shows "always_captures g (Seq r1 r2)"
proof (rule always_capturesI)
  fix st st'
  assume "st' \<in> set (rmatch (Seq r1 r2) st)"
  then obtain st1 where 1: "st1 \<in> set (rmatch r1 st)" and 2: "st' \<in> set (rmatch r2 st1)"
    by auto
  from rmatch_extends [OF 2] obtain pre where "fst st' = pre @ fst st1"
    unfolding extends_def by blast
  with always_capturesD [OF assms 1] show "g \<in> fst ` set (fst st')" by auto
qed

lemma always_captures_Seq2:
  assumes "always_captures g r2"
  shows "always_captures g (Seq r1 r2)"
proof (rule always_capturesI)
  fix st st'
  assume "st' \<in> set (rmatch (Seq r1 r2) st)"
  then obtain st1 where "st' \<in> set (rmatch r2 st1)" by auto
  with assms show "g \<in> fst ` set (fst st')" by (rule always_capturesD)
qed

lemma always_captures_cat_hd: "always_captures g r \<Longrightarrow> always_captures g (cat (r # rs))"
  by (cases rs) (auto intro: always_captures_Seq1)

lemma always_captures_cat_tl:
  assumes "always_captures g (cat rs)"
  shows "always_captures g (cat (r # rs))"
proof (cases rs)
  case Nil
  have "([], []) \<in> set (rmatch (cat []) ([], []))" by (simp add: rounds_def)
  from always_capturesD [OF assms [unfolded Nil] this] show ?thesis by simp
next
  case (Cons a list)
  with assms show ?thesis by (auto intro: always_captures_Seq2)
qed

lemma search_Some:
  "search r s = Some caps \<Longrightarrow> \<exists>s0 st'. st' \<in> set (rmatch r ([], s0)) \<and> fst st' = caps"
proof (induction s)
  case Nil
  then obtain m ms where "rmatch r ([], []) = m # ms" "fst m = caps"
    by (auto split: list.splits)
  then have "m \<in> set (rmatch r ([], []))" by simp
  with \<open>fst m = caps\<close> show ?case by blast
next
  case (Cons a s)
  show ?case
  proof (cases "rmatch r ([], a # s)")
    case Nil
    with Cons show ?thesis by simp
  next
    case (Cons m ms)
    with Cons.prems have "m \<in> set (rmatch r ([], a # s))" "fst m = caps" by auto
    then show ?thesis by blast
  qed
qed

lemma map_of_groupdict:
  "map_of (groupdict r caps) g = (if g \<in> set (group_names r) then Some (map_of caps g) else None)"
  by (simp add: groupdict_def map_of_map_restrict restrict_map_def)

lemma in_parse_lines:
  "rec \<in> set (parse_lines ls r) \<Longrightarrow>
   \<exists>line caps. line \<in> set ls \<and> search r line = Some caps \<and> rec = groupdict r caps"
  by (induction ls) (auto split: option.splits)

text \<open>What a record of \<open>_parse_lines\<close> holds for a group of the pattern.\<close>

lemma parsed_key:
  assumes "rec \<in> set (parse_lines ls r)" "g \<in> set (group_names r)"
  shows "\<exists>v. map_of rec g = Some v"
  using in_parse_lines [OF assms(1)] assms(2) by (auto simp: map_of_groupdict)

lemma parsed_text:
  assumes "rec \<in> set (parse_lines ls r)" "captures_only g P r" "map_of rec g = Some (Some t)"
  shows "P t"
proof -
  from in_parse_lines [OF assms(1)] obtain line caps where
    s: "search r line = Some caps" and rec: "rec = groupdict r caps" by blast
  from search_Some [OF s] obtain s0 st' where m: "st' \<in> set (rmatch r ([], s0))"
    and c: "fst st' = caps" by blast
  from assms(3) have "map_of caps g = Some t"
    by (simp add: rec map_of_groupdict split: if_splits)
  then have "(g, t) \<in> set (fst st')" unfolding c by (rule map_of_SomeD)
  with captures_onlyD [OF assms(2) m] show ?thesis by simp
qed

lemma parsed_always:
  assumes "rec \<in> set (parse_lines ls r)" "always_captures g r" "g \<in> set (group_names r)"
  shows "\<exists>t. map_of rec g = Some (Some t)"
proof -
  from in_parse_lines [OF assms(1)] obtain line caps where
    s: "search r line = Some caps" and rec: "rec = groupdict r caps" by blast
  from search_Some [OF s] obtain s0 st' where m: "st' \<in> set (rmatch r ([], s0))"
    and c: "fst st' = caps" by blast
  from always_capturesD [OF assms(2) m] have "g \<in> fst ` set caps" unfolding c .
  then obtain t where "map_of caps g = Some t"
    by (metis domD dom_map_of_conv_image_fst)
  with assms(3) show ?thesis by (simp add: rec map_of_groupdict)
qed

subsection \<open>The patterns of the source\<close>

lemma pairs_sep_map:
  "pairs_sep h1 q1 n s \<Longrightarrow> \<forall>c. h1 c \<longrightarrow> h2 (f c) \<Longrightarrow> \<forall>c. q1 c \<longrightarrow> q2 (f c) \<Longrightarrow>
   pairs_sep h2 q2 n (map f s)"
  by (induction h1 q1 n s rule: pairs_sep.induct) auto

lemma upper_lower_hex:
  "in_classes [Range CHR ''0'' CHR ''9'', Range CHR ''a'' CHR ''f''] c \<Longrightarrow>
   upper_hex_digit (upper_char c)"
  by (auto simp: in_classes_def in_range_def code_def upper_char_def upper_hex_digit_def)

lemma upper_upper_hex:
  "in_classes [Range CHR ''0'' CHR ''9'', Range CHR ''A'' CHR ''F''] c \<Longrightarrow>
   upper_hex_digit (upper_char c)"
  by (auto simp: in_classes_def in_range_def code_def upper_char_def upper_hex_digit_def)

lemma upper_separator:
  "in_classes [Lit CHR '':'', Lit CHR ''-''] c \<Longrightarrow>
   upper_char c = CHR '':'' \<or> upper_char c = CHR ''-''"
  by (auto simp: in_classes_def in_range_def code_def upper_char_def)

lemma upper_mac_lower:
  assumes "pairs_sep (in_classes [Range CHR ''0'' CHR ''9'', Range CHR ''a'' CHR ''f''])
     (in_classes [Lit CHR '':'', Lit CHR ''-'']) 5 t"
  shows "upper_mac (upper t)"
  unfolding upper_mac_def upper_def
  using assms
proof (rule pairs_sep_map)
  show "\<forall>c. in_classes [Range CHR ''0'' CHR ''9'', Range CHR ''a'' CHR ''f''] c \<longrightarrow>
    upper_hex_digit (upper_char c)"
    by (simp add: upper_lower_hex)
  show "\<forall>c. in_classes [Lit CHR '':'', Lit CHR ''-''] c \<longrightarrow>
    upper_char c = CHR '':'' \<or> upper_char c = CHR ''-''"
    by (simp add: upper_separator)
qed

lemma upper_mac_upper:
  assumes "pairs_sep (in_classes [Range CHR ''0'' CHR ''9'', Range CHR ''A'' CHR ''F''])
     (in_classes [Lit CHR '':'', Lit CHR ''-'']) 5 t"
  shows "upper_mac (upper t)"
  unfolding upper_mac_def upper_def
  using assms
proof (rule pairs_sep_map)
  show "\<forall>c. in_classes [Range CHR ''0'' CHR ''9'', Range CHR ''A'' CHR ''F''] c \<longrightarrow>
    upper_hex_digit (upper_char c)"
    by (simp add: upper_upper_hex)
  show "\<forall>c. in_classes [Lit CHR '':'', Lit CHR ''-''] c \<longrightarrow>
    upper_char c = CHR '':'' \<or> upper_char c = CHR ''-''"
    by (simp add: upper_separator)
qed

lemmas pattern_defs =
  ipv4_pattern_def ipv6_pattern_def digit09_def hex_any_def group_names_cat

lemma WL_mac_shape:
  "captures_only ''mac''
     (pairs_sep (in_classes [Range CHR ''0'' CHR ''9'', Range CHR ''A'' CHR ''F''])
        (in_classes [Lit CHR '':'', Lit CHR ''-'']) 5) WL_REGEX"
  unfolding WL_REGEX_def hex_upper_def
  by (intro captures_only_cat_Cons captures_only_cat_Nil captures_only_Named_mac
        captures_only_no_group) (simp_all add: pattern_defs)

lemma LEASES_mac_shape:
  "captures_only ''mac''
     (pairs_sep (in_classes [Range CHR ''0'' CHR ''9'', Range CHR ''a'' CHR ''f''])
        (in_classes [Lit CHR '':'', Lit CHR ''-'']) 5) LEASES_REGEX"
  unfolding LEASES_REGEX_def hex_lower_def
  by (intro captures_only_cat_Cons captures_only_cat_Nil captures_only_Named_mac
        captures_only_no_group) (simp_all add: pattern_defs)

lemma ARP_mac_shape:
  "captures_only ''mac''
     (pairs_sep (in_classes [Range CHR ''0'' CHR ''9'', Range CHR ''a'' CHR ''f''])
        (in_classes [Lit CHR '':'', Lit CHR ''-'']) 5) ARP_REGEX"
  unfolding ARP_REGEX_def hex_lower_def
  by (intro captures_only_cat_Cons captures_only_cat_Nil captures_only_Named_mac
        captures_only_no_group) (simp_all add: pattern_defs)

lemma IP_NEIGH_mac_shape:
  "captures_only ''mac''
     (pairs_sep (in_classes [Range CHR ''0'' CHR ''9'', Range CHR ''a'' CHR ''f''])
        (in_classes [Lit CHR '':'', Lit CHR ''-'']) 5) IP_NEIGH_REGEX"
  unfolding IP_NEIGH_REGEX_def hex_lower_def
  by (intro captures_only_cat_Cons captures_only_cat_Nil captures_only_Named_mac
        captures_only_Rep captures_only_no_group) (simp_all add: pattern_defs)

lemma WL_always: "always_captures ''mac'' WL_REGEX"
  unfolding WL_REGEX_def
  by ((rule always_captures_cat_hd, rule always_captures_Named) | rule always_captures_cat_tl)+

lemma LEASES_always:
  "always_captures ''mac'' LEASES_REGEX" "always_captures ''ip'' LEASES_REGEX"
  "always_captures ''host'' LEASES_REGEX"
  unfolding LEASES_REGEX_def
  by ((rule always_captures_cat_hd, rule always_captures_Named) | rule always_captures_cat_tl)+

lemma ARP_always: "always_captures ''mac'' ARP_REGEX" "always_captures ''ip'' ARP_REGEX"
  unfolding ARP_REGEX_def
  by ((rule always_captures_cat_hd, rule always_captures_Named) | rule always_captures_cat_tl)+

lemma IP_NEIGH_always:
  "always_captures ''ip'' IP_NEIGH_REGEX" "always_captures ''status'' IP_NEIGH_REGEX"
  unfolding IP_NEIGH_REGEX_def
  by ((rule always_captures_cat_hd, rule always_captures_Named) | rule always_captures_cat_tl)+

lemma group_names_patterns [simp]:
  "group_names WL_REGEX = [''mac'']"
  "group_names LEASES_REGEX = [''mac'', ''ip'', ''host'']"
  "group_names ARP_REGEX = [''ip'', ''mac'']"
  "group_names IP_NEIGH_REGEX = [''ip'', ''mac'', ''status'']"
  by (simp_all add: WL_REGEX_def LEASES_REGEX_def ARP_REGEX_def IP_NEIGH_REGEX_def
        mac_pattern_def hex_upper_def hex_lower_def pattern_defs)

subsection \<open>The device sources\<close>

lemma getter_Inr:
  assumes "fst (bindM (await_run_command cmd) (\<lambda>lines. finish (g lines)) self) = Inr t"
  shows "\<exists>v rs. replies (connection self) = Inr v # rs \<and> g v = Inr t"
proof -
  obtain r s1 where "bindM (await_run_command cmd) (\<lambda>lines. finish (g lines)) self = (r, s1)"
    by (cases "bindM (await_run_command cmd) (\<lambda>lines. finish (g lines)) self")
  with assms have "bindM (await_run_command cmd) (\<lambda>lines. finish (g lines)) self = (Inr t, s1)"
    by simp
  from run_then_Inr [OF this] show ?thesis by blast
qed

lemma wl_devices_items:
  assumes "wl_devices v = Inr t" "(k, d) \<in> set t"
  shows "\<exists>ls. v = Lines ls \<and> (\<exists>r \<in> set (parse_lines ls WL_REGEX). \<exists>m.
           map_of r ''mac'' = Some (Some m) \<and> k = upper m \<and> d = Device (upper m) None None)"
proof (cases v)
  case (Lines ls)
  with assms have "wl_loop (parse_lines ls WL_REGEX) [] = Inr t"
    by (auto simp: wl_devices_def split: if_splits)
  from wl_loop_items [OF this assms(2)] Lines show ?thesis by simp
next
  case (Coroutine c r)
  with assms show ?thesis by (simp add: wl_devices_def)
qed

lemma arp_devices_items:
  assumes "arp_devices v = Inr t" "(k, d) \<in> set t"
  shows "\<exists>ls. v = Lines ls \<and> (\<exists>r \<in> set (parse_lines ls ARP_REGEX). \<exists>m i.
           map_of r ''mac'' = Some (Some m) \<and> map_of r ''ip'' = Some i \<and>
           k = upper m \<and> d = Device (upper m) i None)"
proof (cases v)
  case (Lines ls)
  with assms have "arp_loop (parse_lines ls ARP_REGEX) [] = Inr t"
    by (auto simp: arp_devices_def split: if_splits)
  from arp_loop_items [OF this assms(2)] Lines show ?thesis by simp
next
  case (Coroutine c r)
  with assms show ?thesis by (simp add: arp_devices_def)
qed

lemma neigh_devices_items:
  assumes "neigh_devices cur v = Inr t" "(k, d) \<in> set t"
  shows "\<exists>ls. v = Lines ls \<and> (\<exists>r \<in> set (parse_lines ls IP_NEIGH_REGEX). \<exists>m st.
           map_of r ''mac'' = Some (Some m) \<and>
           map_of r ''status'' = Some (Some st) \<and> upper st = ''REACHABLE'' \<and> k = upper m \<and>
           d = Device (upper m)
                 (dict_get r ''ip'' (case map_of cur (upper m) of Some d \<Rightarrow> ip d | None \<Rightarrow> None))
                 None)"
proof (cases v)
  case (Lines ls)
  with assms have "neigh_loop cur (parse_lines ls IP_NEIGH_REGEX) [] = Inr t"
    by (auto simp: neigh_devices_def split: if_splits)
  from neigh_loop_items [OF this assms(2)] Lines show ?thesis by simp
next
  case (Coroutine c r)
  with assms show ?thesis by (simp add: neigh_devices_def)
qed

lemma leases_devices_items:
  assumes "leases_devices cur v = Inr t" "(k, d) \<in> set t"
  shows "\<exists>ls. v = Lines ls \<and>
           (\<exists>r \<in> set (parse_lines (filter (\<lambda>line. \<not> startswith line ''duid '') ls) LEASES_REGEX).
              \<exists>m i h0. map_of r ''mac'' = Some (Some m) \<and> map_of r ''ip'' = Some i \<and>
                map_of r ''host'' = Some h0 \<and> map_of cur (upper m) \<noteq> None \<and> k = upper m \<and>
                d = Device (upper m) i (if h0 = Some ''*'' then Some [] else h0))"
proof (cases v)
  case (Lines ls)
  with assms have "leases_loop cur
      (parse_lines (filter (\<lambda>line. \<not> startswith line ''duid '') ls) LEASES_REGEX) [] = Inr t"
    by (auto simp: leases_devices_def split: if_splits)
  from leases_loop_items [OF this assms(2)] Lines show ?thesis by simp
next
  case (Coroutine c r)
  with assms show ?thesis by (simp add: leases_devices_def)
qed

lemma keyed_wl: "wl_devices v = Inr t \<Longrightarrow> keyed_by_mac t"
  unfolding keyed_by_mac_def by (auto dest!: wl_devices_items)

lemma keyed_arp: "arp_devices v = Inr t \<Longrightarrow> keyed_by_mac t"
  unfolding keyed_by_mac_def by (auto dest!: arp_devices_items)

lemma keyed_neigh: "neigh_devices cur v = Inr t \<Longrightarrow> keyed_by_mac t"
  unfolding keyed_by_mac_def by (auto dest!: neigh_devices_items)

lemma keyed_leases: "leases_devices cur v = Inr t \<Longrightarrow> keyed_by_mac t"
  unfolding keyed_by_mac_def by (auto dest!: leases_devices_items split del: if_split)

lemma keyed_dict_update: "keyed_by_mac d \<Longrightarrow> keyed_by_mac other \<Longrightarrow> keyed_by_mac (dict_update d other)"
  unfolding keyed_by_mac_def using set_dict_update_subset [of d other] by blast

lemma keyed_ret_loop: "ret_loop req ds ks [] = Inr t \<Longrightarrow> keyed_by_mac ds \<Longrightarrow> keyed_by_mac t"
  unfolding keyed_by_mac_def by (auto dest: ret_loop_items)

lemma keyed_connected:
  assumes "fst (async_get_connected_devices self) = Inr t"
  shows "keyed_by_mac t"
proof -
  from connected_devices_Inr [OF assms] obtain w a n rest wl arp neigh d4 where
    wl: "wl_devices w = Inr wl" and arp: "arp_devices a = Inr arp"
    and neigh: "neigh_devices (dict_update (dict_update [] wl) arp) n = Inr neigh"
    and d4: "mode self = ''ap'' \<and>
              d4 = dict_update (dict_update (dict_update [] wl) arp) neigh \<or>
            mode self \<noteq> ''ap'' \<and>
              (\<exists>l rest' leases. rest = Inr l # rest' \<and>
                 leases_devices (dict_update (dict_update (dict_update [] wl) arp) neigh) l
                   = Inr leases \<and>
                 d4 = dict_update (dict_update (dict_update (dict_update [] wl) arp) neigh)
                        leases)"
    and ret: "ret_loop (require_ip self) d4 (map fst d4) [] = Inr t"
    by blast
  have "keyed_by_mac []" by (simp add: keyed_by_mac_def)
  then have d3: "keyed_by_mac (dict_update (dict_update (dict_update [] wl) arp) neigh)"
    using keyed_wl [OF wl] keyed_arp [OF arp] keyed_neigh [OF neigh]
    by (intro keyed_dict_update)
  from d4 have "keyed_by_mac d4"
  proof
    assume "mode self = ''ap'' \<and> d4 = dict_update (dict_update (dict_update [] wl) arp) neigh"
    with d3 show ?thesis by simp
  next
    assume "mode self \<noteq> ''ap'' \<and>
              (\<exists>l rest' leases. rest = Inr l # rest' \<and>
                 leases_devices (dict_update (dict_update (dict_update [] wl) arp) neigh) l
                   = Inr leases \<and>
                 d4 = dict_update (dict_update (dict_update (dict_update [] wl) arp) neigh)
                        leases)"
    then obtain l leases where
      "leases_devices (dict_update (dict_update (dict_update [] wl) arp) neigh) l = Inr leases"
      "d4 = dict_update (dict_update (dict_update (dict_update [] wl) arp) neigh) leases"
      by blast
    with d3 show ?thesis by (auto intro: keyed_dict_update dest: keyed_leases)
  qed
  with ret show ?thesis by (rule keyed_ret_loop)
qed

section \<open>The claims\<close>

text \<open>
  Claim C10. In every mapping returned by \<open>async_get_connected_devices\<close> and by each of
  the four per-source getters (\<open>async_get_wl\<close>, \<open>async_get_arp\<close>, \<open>async_get_neigh\<close>,
  \<open>async_get_leases\<close>), every key is equal to the \<open>mac\<close> field of the \<open>Device\<close> stored
  under it. The objects, the current tables and the connection's answers are
  arbitrary; a getter that raises returns no mapping.
\<close>

theorem keys_equal_device_mac:
  "(fst (async_get_wl s1) = Inr t1 \<longrightarrow> keyed_by_mac t1) \<and>
   (fst (async_get_arp s2) = Inr t2 \<longrightarrow> keyed_by_mac t2) \<and>
   (fst (async_get_neigh cur3 s3) = Inr t3 \<longrightarrow> keyed_by_mac t3) \<and>
   (fst (async_get_leases cur4 s4) = Inr t4 \<longrightarrow> keyed_by_mac t4) \<and>
   (fst (async_get_connected_devices s5) = Inr t5 \<longrightarrow> keyed_by_mac t5)"
proof (intro conjI impI)
  assume "fst (async_get_wl s1) = Inr t1"
  then show "keyed_by_mac t1"
    unfolding async_get_wl_def by (auto dest!: getter_Inr keyed_wl)
next
  assume "fst (async_get_arp s2) = Inr t2"
  then show "keyed_by_mac t2"
    unfolding async_get_arp_def by (auto dest!: getter_Inr keyed_arp)
next
  assume "fst (async_get_neigh cur3 s3) = Inr t3"
  then show "keyed_by_mac t3"
    unfolding async_get_neigh_def by (auto dest!: getter_Inr keyed_neigh)
next
  assume "fst (async_get_leases cur4 s4) = Inr t4"
  then show "keyed_by_mac t4"
    unfolding async_get_leases_def by (auto dest!: getter_Inr keyed_leases)
next
  assume "fst (async_get_connected_devices s5) = Inr t5"
  then show "keyed_by_mac t5" by (rule keyed_connected)
qed

lemma example_wl:
  "fst (async_get_wl (init ''router'' False 5 (answering [[''w AA:BB:CC:DD:EE:01'']]))) =
   Inr [(''AA:BB:CC:DD:EE:01'', Device ''AA:BB:CC:DD:EE:01'' None None)]"
  by code_simp

lemma example_arp:
  "fst (async_get_arp
     (init ''router'' False 5 (answering [[''? (10.0.0.2) at aa:bb:cc:dd:ee:02 x'']]))) =
   Inr [(''AA:BB:CC:DD:EE:02'', Device ''AA:BB:CC:DD:EE:02'' (Some ''10.0.0.2'') None)]"
  by code_simp

lemma example_neigh:
  "fst (async_get_neigh [(''AA:BB:CC:DD:EE:01'', Device ''AA:BB:CC:DD:EE:01'' None None)]
     (init ''router'' False 5
        (answering [[''10.0.0.3 dev br0 lladdr aa:bb:cc:dd:ee:03 REACHABLE'',
                     ''10.0.0.4 dev br0 lladdr aa:bb:cc:dd:ee:04 STALE'']]))) =
   Inr [(''AA:BB:CC:DD:EE:03'', Device ''AA:BB:CC:DD:EE:03'' (Some ''10.0.0.3'') None)]"
  by code_simp

lemma example_leases:
  "fst (async_get_leases [(''AA:BB:CC:DD:EE:01'', Device ''AA:BB:CC:DD:EE:01'' None None)]
     (init ''router'' False 5
        (answering [[''1 aa:bb:cc:dd:ee:01 10.0.0.1 * x'',
                     ''1 aa:bb:cc:dd:ee:09 10.0.0.9 ghost x'']]))) =
   Inr [(''AA:BB:CC:DD:EE:01'', Device ''AA:BB:CC:DD:EE:01'' (Some ''10.0.0.1'') (Some []))]"
  by code_simp

lemma example_run:
  "fst (async_get_connected_devices
     (init ''router'' False 5
        (answering [[''w AA:BB:CC:DD:EE:01''],
                    [''? (10.0.0.2) at aa:bb:cc:dd:ee:02 x''],
                    [''10.0.0.3 dev br0 lladdr aa:bb:cc:dd:ee:03 REACHABLE'',
                     ''10.0.0.4 dev br0 lladdr aa:bb:cc:dd:ee:04 STALE''],
                    [''1 aa:bb:cc:dd:ee:01 10.0.0.1 * x'',
                     ''1 aa:bb:cc:dd:ee:09 10.0.0.9 ghost x'']]))) =
   Inr [(''AA:BB:CC:DD:EE:01'', Device ''AA:BB:CC:DD:EE:01'' (Some ''10.0.0.1'') (Some [])),
        (''AA:BB:CC:DD:EE:02'', Device ''AA:BB:CC:DD:EE:02'' (Some ''10.0.0.2'') None),
        (''AA:BB:CC:DD:EE:03'', Device ''AA:BB:CC:DD:EE:03'' (Some ''10.0.0.3'') None)]"
  by code_simp

theorem keys_equal_device_mac_witness:
  "keyed_by_mac [(''AA:BB:CC:DD:EE:01'', Device ''AA:BB:CC:DD:EE:01'' None None)] \<and>
   keyed_by_mac [(''AA:BB:CC:DD:EE:02'', Device ''AA:BB:CC:DD:EE:02'' (Some ''10.0.0.2'') None)] \<and>
   keyed_by_mac [(''AA:BB:CC:DD:EE:03'', Device ''AA:BB:CC:DD:EE:03'' (Some ''10.0.0.3'') None)] \<and>
   keyed_by_mac
     [(''AA:BB:CC:DD:EE:01'', Device ''AA:BB:CC:DD:EE:01'' (Some ''10.0.0.1'') (Some []))] \<and>
   keyed_by_mac
     [(''AA:BB:CC:DD:EE:01'', Device ''AA:BB:CC:DD:EE:01'' (Some ''10.0.0.1'') (Some [])),
      (''AA:BB:CC:DD:EE:02'', Device ''AA:BB:CC:DD:EE:02'' (Some ''10.0.0.2'') None),
      (''AA:BB:CC:DD:EE:03'', Device ''AA:BB:CC:DD:EE:03'' (Some ''10.0.0.3'') None)]"
proof (intro conjI)
  show "keyed_by_mac [(''AA:BB:CC:DD:EE:01'', Device ''AA:BB:CC:DD:EE:01'' None None)]"
    using keys_equal_device_mac example_wl by blast
  show "keyed_by_mac
     [(''AA:BB:CC:DD:EE:02'', Device ''AA:BB:CC:DD:EE:02'' (Some ''10.0.0.2'') None)]"
    using keys_equal_device_mac example_arp by blast
  show "keyed_by_mac
     [(''AA:BB:CC:DD:EE:03'', Device ''AA:BB:CC:DD:EE:03'' (Some ''10.0.0.3'') None)]"
    using keys_equal_device_mac example_neigh by blast
  show "keyed_by_mac
     [(''AA:BB:CC:DD:EE:01'', Device ''AA:BB:CC:DD:EE:01'' (Some ''10.0.0.1'') (Some []))]"
    using keys_equal_device_mac example_leases by blast
  show "keyed_by_mac
     [(''AA:BB:CC:DD:EE:01'', Device ''AA:BB:CC:DD:EE:01'' (Some ''10.0.0.1'') (Some [])),
      (''AA:BB:CC:DD:EE:02'', Device ''AA:BB:CC:DD:EE:02'' (Some ''10.0.0.2'') None),
      (''AA:BB:CC:DD:EE:03'', Device ''AA:BB:CC:DD:EE:03'' (Some ''10.0.0.3'') None)]"
    using keys_equal_device_mac example_run by blast
qed

end
